theory Spec2Isabelle
  imports Main "HOL-Library.Sublist"
begin

section \<open>The string operations of the C++ standard library used by the renderers\<close>

text \<open>
  A \<open>std::string\<close> is a list of bytes (\<open>string\<close> is \<open>char list\<close>), a position of type
  \<open>size_t\<close> is a natural number, and the result \<open>std::string::npos\<close> of a failed
  search is \<open>None\<close>. Every position the renderers compute is at most the length of a
  string held in memory, so no \<open>size_t\<close> addition wraps.

  \<open>find_str s str pos\<close> is \<open>s.find(str, pos)\<close>: the least position \<open>p \<ge> pos\<close> at
  which \<open>str\<close> occurs in \<open>s\<close>; a start beyond the end finds nothing.
  \<open>find_chr s c pos\<close> is \<open>s.find(c, pos)\<close> for a single character.
\<close>

fun find_from :: "string \<Rightarrow> string \<Rightarrow> nat \<Rightarrow> nat option" where
  "find_from [] str i = (if str = [] then Some i else None)"
| "find_from (c # cs) str i =
     (if prefix str (c # cs) then Some i else find_from cs str (Suc i))"

definition find_str :: "string \<Rightarrow> string \<Rightarrow> nat \<Rightarrow> nat option" where
  "find_str s str pos =
     (if length s < pos then None else find_from (drop pos s) str pos)"

fun find_chr_from :: "string \<Rightarrow> char \<Rightarrow> nat \<Rightarrow> nat option" where
  "find_chr_from [] c i = None"
| "find_chr_from (x # xs) c i = (if x = c then Some i else find_chr_from xs c (Suc i))"

definition find_chr :: "string \<Rightarrow> char \<Rightarrow> nat \<Rightarrow> nat option" where
  "find_chr s c pos = find_chr_from (drop pos s) c pos"

text \<open>
  \<open>substr s pos n\<close> is \<open>s.substr(pos, n)\<close> and \<open>replace s pos n r\<close> is the string after
  \<open>s.replace(pos, n, r)\<close>. Both throw \<open>std::out_of_range\<close> when \<open>pos > s.size()\<close>;
  every call of the renderers takes \<open>pos\<close> from a successful \<open>find\<close>, which is below
  the size (lemmas \<open>find_str_SomeD\<close> and \<open>find_chr_SomeD\<close>), so the models are the
  in-range behaviour.
\<close>

definition substr :: "string \<Rightarrow> nat \<Rightarrow> nat \<Rightarrow> string" where
  "substr s pos n = take n (drop pos s)"

definition replace :: "string \<Rightarrow> nat \<Rightarrow> nat \<Rightarrow> string \<Rightarrow> string" where
  "replace s pos n r = take pos s @ r @ drop (pos + n) s"

text \<open>
  \<open>isalnum\<close> of \<open><cctype>\<close> in the "C" locale (the program never calls
  \<open>setlocale\<close>): the ASCII digits and letters. A byte above 127 reaches \<open>isalnum\<close>
  as a negative \<open>int\<close> where \<open>char\<close> is signed, which the C standard leaves undefined;
  the model takes it as not alphanumeric, the value of the "C" locale's table.
\<close>

definition isalnum :: "char \<Rightarrow> bool" where
  "isalnum c =
     (let n = (of_char c :: nat)
      in (48 \<le> n \<and> n \<le> 57) \<or> (65 \<le> n \<and> n \<le> 90) \<or> (97 \<le> n \<and> n \<le> 122))"

definition dquote :: char where
  "dquote = CHR 0x22"

definition newline :: char where
  "newline = CHR 0x0A"


subsection \<open>Facts about the searches\<close>

lemma find_from_shift:
  "find_from xs str i = map_option ((+) i) (find_from xs str 0)"
proof (induction xs arbitrary: i)
  case Nil
  show ?case by simp
next
  case (Cons c cs)
  have "find_from cs str (Suc i) = map_option ((+) (Suc i)) (find_from cs str 0)"
    by (rule Cons.IH)
  moreover have "find_from cs str (Suc 0) = map_option ((+) (Suc 0)) (find_from cs str 0)"
    by (rule Cons.IH)
  ultimately show ?case
    by (cases "find_from cs str 0") simp_all
qed

lemma find_from_0_Some_iff:
  "find_from xs str 0 = Some k \<longleftrightarrow>
     k \<le> length xs \<and> prefix str (drop k xs) \<and> (\<forall>j<k. \<not> prefix str (drop j xs))"
proof (induction xs arbitrary: k)
  case Nil
  show ?case by auto
next
  case (Cons c cs)
  show ?case
  proof (cases "prefix str (c # cs)")
    case True
    then show ?thesis by auto
  next
    case False
    have shift: "find_from cs str (Suc 0) = map_option Suc (find_from cs str 0)"
      using find_from_shift [of cs str "Suc 0"] by (cases "find_from cs str 0") simp_all
    show ?thesis
    proof (cases k)
      case 0
      with False shift show ?thesis by auto
    next
      case (Suc k')
      have "(\<forall>j<Suc k'. \<not> prefix str (drop j (c # cs))) \<longleftrightarrow>
            (\<forall>j<k'. \<not> prefix str (drop j cs))"
        using False by (auto simp: less_Suc_eq_0_disj)
      with False shift Suc Cons.IH [of k'] show ?thesis by auto
    qed
  qed
qed

lemma find_str_Some_iff:
  "find_str s str pos = Some p \<longleftrightarrow>
     pos \<le> p \<and> p \<le> length s \<and> prefix str (drop p s) \<and>
     (\<forall>q. pos \<le> q \<and> q < p \<longrightarrow> \<not> prefix str (drop q s))"
proof (cases "length s < pos")
  case True
  then show ?thesis by (auto simp: find_str_def)
next
  case False
  have "find_str s str pos = Some p \<longleftrightarrow>
        (\<exists>k. p = pos + k \<and> find_from (drop pos s) str 0 = Some k)"
    using False find_from_shift [of "drop pos s" str pos]
    by (auto simp: find_str_def)
  also have "\<dots> \<longleftrightarrow> (\<exists>k. p = pos + k \<and> k \<le> length s - pos \<and>
        prefix str (drop (pos + k) s) \<and> (\<forall>j<k. \<not> prefix str (drop (pos + j) s)))"
    by (simp add: find_from_0_Some_iff add.commute)
  also have "\<dots> \<longleftrightarrow> pos \<le> p \<and> p \<le> length s \<and> prefix str (drop p s) \<and>
     (\<forall>q. pos \<le> q \<and> q < p \<longrightarrow> \<not> prefix str (drop q s))"
  proof
    assume "\<exists>k. p = pos + k \<and> k \<le> length s - pos \<and>
        prefix str (drop (pos + k) s) \<and> (\<forall>j<k. \<not> prefix str (drop (pos + j) s))"
    then obtain k where k: "p = pos + k" "k \<le> length s - pos"
      "prefix str (drop (pos + k) s)" "\<forall>j<k. \<not> prefix str (drop (pos + j) s)"
      by blast
    have "\<not> prefix str (drop q s)" if "pos \<le> q" "q < p" for q
    proof -
      from that k(1) have "q - pos < k" "q = pos + (q - pos)" by auto
      with k(4) show ?thesis by metis
    qed
    with k False show "pos \<le> p \<and> p \<le> length s \<and> prefix str (drop p s) \<and>
     (\<forall>q. pos \<le> q \<and> q < p \<longrightarrow> \<not> prefix str (drop q s))"
      by auto
  next
    assume r: "pos \<le> p \<and> p \<le> length s \<and> prefix str (drop p s) \<and>
     (\<forall>q. pos \<le> q \<and> q < p \<longrightarrow> \<not> prefix str (drop q s))"
    then have "p = pos + (p - pos) \<and> p - pos \<le> length s - pos \<and>
        prefix str (drop (pos + (p - pos)) s) \<and>
        (\<forall>j<p - pos. \<not> prefix str (drop (pos + j) s))"
      by auto
    then show "\<exists>k. p = pos + k \<and> k \<le> length s - pos \<and>
        prefix str (drop (pos + k) s) \<and> (\<forall>j<k. \<not> prefix str (drop (pos + j) s))"
      by blast
  qed
  finally show ?thesis .
qed

lemma find_str_None_iff:
  "find_str s str pos = None \<longleftrightarrow>
     (\<forall>q. pos \<le> q \<and> q \<le> length s \<longrightarrow> \<not> prefix str (drop q s))"
proof
  assume n: "find_str s str pos = None"
  show "\<forall>q. pos \<le> q \<and> q \<le> length s \<longrightarrow> \<not> prefix str (drop q s)"
  proof (intro allI impI notI)
    fix q
    assume q: "pos \<le> q \<and> q \<le> length s" and occ: "prefix str (drop q s)"
    define P where "P = (\<lambda>r. pos \<le> r \<and> r \<le> length s \<and> prefix str (drop r s))"
    have "P q" using q occ by (simp add: P_def)
    then have "P (Least P)" and least: "\<And>r. P r \<Longrightarrow> Least P \<le> r"
      by (auto intro: LeastI Least_le)
    then have "find_str s str pos = Some (Least P)"
      unfolding find_str_Some_iff P_def
      by (metis (mono_tags, lifting) dual_order.strict_trans2 less_le_not_le nat_less_le)
    with n show False by simp
  qed
next
  assume "\<forall>q. pos \<le> q \<and> q \<le> length s \<longrightarrow> \<not> prefix str (drop q s)"
  then have "find_str s str pos \<noteq> Some p" for p
    by (auto simp: find_str_Some_iff)
  then show "find_str s str pos = None"
    by (cases "find_str s str pos") auto
qed

lemma prefix_drop_bound:
  assumes "prefix str (drop p s)" "str \<noteq> []"
  shows "p + length str \<le> length s"
proof -
  from assms(1) have "length str \<le> length (drop p s)" by (rule prefix_length_le)
  moreover from assms have "drop p s \<noteq> []" by auto
  ultimately show ?thesis by auto
qed

lemma prefix_drop_take:
  "prefix str (drop p s) \<Longrightarrow> take (length str) (drop p s) = str"
  by (auto simp: prefix_def)

lemma find_str_SomeD:
  assumes "find_str s str pos = Some p" "str \<noteq> []"
  shows "pos \<le> p" "p + length str \<le> length s" "p < length s"
    "substr s p (length str) = str"
proof -
  from assms(1) have p: "pos \<le> p" "prefix str (drop p s)"
    by (simp_all add: find_str_Some_iff)
  show "pos \<le> p" by fact
  show b: "p + length str \<le> length s" using p(2) assms(2) by (rule prefix_drop_bound)
  show "p < length s" using b assms(2) by (cases str) auto
  show "substr s p (length str) = str"
    using p(2) by (simp add: substr_def prefix_drop_take)
qed

lemma find_str_append:
  "find_str (pre @ s) str (length pre + pos) =
     map_option ((+) (length pre)) (find_str s str pos)"
proof (cases "length s < pos")
  case True
  then show ?thesis by (simp add: find_str_def)
next
  case False
  have "find_from (drop pos s) str (length pre + pos) =
        map_option ((+) (length pre)) (find_from (drop pos s) str pos)"
    using find_from_shift [of "drop pos s" str "length pre + pos"]
      find_from_shift [of "drop pos s" str pos]
    by (cases "find_from (drop pos s) str 0") (simp_all add: add.assoc)
  with False show ?thesis by (simp add: find_str_def)
qed

lemma find_chr_from_eq: "find_chr_from xs c i = find_from xs [c] i"
  by (induction xs arbitrary: i) auto

lemma find_chr_eq: "find_chr s c pos = find_str s [c] pos"
  by (simp add: find_chr_def find_str_def find_chr_from_eq)

lemma find_chr_SomeD:
  assumes "find_chr s c pos = Some p"
  shows "pos \<le> p" "p < length s" "s ! p = c" "c \<notin> set (take (p - pos) (drop pos s))"
proof -
  from assms have f: "find_str s [c] pos = Some p" by (simp add: find_chr_eq)
  show le: "pos \<le> p" and lt: "p < length s"
    using find_str_SomeD [OF f] by simp_all
  from find_str_SomeD(4) [OF f] lt show "s ! p = c"
    by (simp add: substr_def take_Suc_conv_app_nth hd_drop_conv_nth split: if_splits)
  show "c \<notin> set (take (p - pos) (drop pos s))"
  proof
    assume "c \<in> set (take (p - pos) (drop pos s))"
    then obtain k where k: "k < p - pos" "take (p - pos) (drop pos s) ! k = c"
      by (auto simp: in_set_conv_nth)
    then have "s ! (pos + k) = c" "pos + k < length s" using lt by auto
    then have "prefix [c] (drop (pos + k) s)"
      by (metis Cons_nth_drop_Suc Cons_prefix_Cons Nil_prefix)
    moreover have "\<not> prefix [c] (drop (pos + k) s)"
      using f k(1) by (auto simp: find_str_Some_iff)
    ultimately show False by simp
  qed
qed

lemma find_chr_None_iff: "find_chr s c pos = None \<longleftrightarrow> c \<notin> set (drop pos s)"
proof -
  have "find_chr_from xs c i = None \<longleftrightarrow> c \<notin> set xs" for xs i
    by (induction xs arbitrary: i) auto
  then show ?thesis by (simp add: find_chr_def)
qed

lemma find_chr_append:
  "find_chr (pre @ s) c (length pre + pos) = map_option ((+) (length pre)) (find_chr s c pos)"
  by (simp add: find_chr_eq find_str_append)

section \<open>The renderers\<close>

text \<open>
  \<open>CodeRenderer\<close> is the abstract class; its implementations are the constructors.
  A \<open>SyntaxHighlighter\<close> and its three subclasses own the renderer they wrap
  (\<open>std::unique_ptr<CodeRenderer> wrapped\<close>), so a chain of renderers is a term.
\<close>

datatype CodeRenderer =
    PlainCodeRenderer
  | SyntaxHighlighter CodeRenderer
  | KeywordHighlighter CodeRenderer
  | StringHighlighter CodeRenderer
  | CommentHighlighter CodeRenderer

record KeywordColor =
  keyword :: string
  color :: string

definition keywordsWithColors :: "KeywordColor list" where
  "keywordsWithColors =
     [\<lparr>keyword = ''int'', color = ''blue''\<rparr>,
      \<lparr>keyword = ''void'', color = ''blue''\<rparr>,
      \<lparr>keyword = ''class'', color = ''purple''\<rparr>,
      \<lparr>keyword = ''public'', color = ''purple''\<rparr>,
      \<lparr>keyword = ''private'', color = ''purple''\<rparr>,
      \<lparr>keyword = ''return'', color = ''darkblue''\<rparr>,
      \<lparr>keyword = ''if'', color = ''darkorange''\<rparr>,
      \<lparr>keyword = ''else'', color = ''darkorange''\<rparr>,
      \<lparr>keyword = ''for'', color = ''darkorange''\<rparr>,
      \<lparr>keyword = ''while'', color = ''darkorange''\<rparr>,
      \<lparr>keyword = ''#include'', color = ''red''\<rparr>,
      \<lparr>keyword = ''cout'', color = ''blue''\<rparr>,
      \<lparr>keyword = ''string'', color = ''green''\<rparr>]"

subsection \<open>KeywordHighlighter\<close>

text \<open>
  The \<open>while\<close> loop of \<open>KeywordHighlighter::render\<close> for one rule \<open>kw\<close>, from the
  working copy \<open>highlighted\<close> and the cursor \<open>pos\<close>.

  No keyword of the table is empty. For an empty keyword \<open>find\<close> succeeds at every
  cursor and the C++ loop does not end; the first branch stands for that case, which
  no rule of \<open>keywordsWithColors\<close> reaches (lemma \<open>keywords_nonempty\<close>).
\<close>

function keyword_loop :: "KeywordColor \<Rightarrow> string \<Rightarrow> nat \<Rightarrow> string" where
  "keyword_loop kw highlighted pos =
     (if keyword kw = [] then highlighted
      else case find_str highlighted (keyword kw) pos of
        None \<Rightarrow> highlighted
      | Some p \<Rightarrow>
          if (p = 0 \<or> \<not> isalnum (highlighted ! (p - 1))) \<and>
             (p + length (keyword kw) = length highlighted \<or>
              \<not> isalnum (highlighted ! (p + length (keyword kw))))
          then
            let replacement =
                  ''<span style='color: '' @ color kw @ '';'>'' @ keyword kw @ ''</span>''
            in keyword_loop kw
                 (replace highlighted p (length (keyword kw)) replacement)
                 (p + length replacement)
          else keyword_loop kw highlighted (p + length (keyword kw)))"
  by pat_completeness auto
termination
proof (relation "measure (\<lambda>(kw, highlighted, pos). length highlighted - pos)")
  show "wf (measure (\<lambda>(kw, highlighted, pos). length highlighted - pos))"
    by simp
next
  fix kw :: KeywordColor and highlighted :: string and pos p :: nat and replacement :: string
  assume ne: "keyword kw \<noteq> []"
    and f: "find_str highlighted (keyword kw) pos = Some p"
    and r: "replacement =
      ''<span style='color: '' @ color kw @ '';'>'' @ keyword kw @ ''</span>''"
  from find_str_SomeD [OF f ne] ne
  show "((kw, replace highlighted p (length (keyword kw)) replacement,
          p + length replacement), kw, highlighted, pos)
        \<in> measure (\<lambda>(kw, highlighted, pos). length highlighted - pos)"
    by (cases "keyword kw") (auto simp: replace_def)
next
  fix kw :: KeywordColor and highlighted :: string and pos p :: nat
  assume ne: "keyword kw \<noteq> []"
    and f: "find_str highlighted (keyword kw) pos = Some p"
  from find_str_SomeD [OF f ne] ne
  show "((kw, highlighted, p + length (keyword kw)), kw, highlighted, pos)
        \<in> measure (\<lambda>(kw, highlighted, pos). length highlighted - pos)"
    by (cases "keyword kw") auto
qed

text \<open>
  The body of \<open>KeywordHighlighter::render\<close> before the call of the wrapped renderer:
  the \<open>for\<close> loop over the table, each rule scanning the text the rules before it
  left, from cursor 0.
\<close>

definition keyword_highlighted :: "string \<Rightarrow> string" where
  "keyword_highlighted code = fold (\<lambda>kw highlighted. keyword_loop kw highlighted 0) keywordsWithColors code"

subsection \<open>StringHighlighter\<close>

function string_loop :: "string \<Rightarrow> nat \<Rightarrow> string" where
  "string_loop highlighted pos =
     (case find_chr highlighted dquote pos of
        None \<Rightarrow> highlighted
      | Some p \<Rightarrow>
          (case find_chr highlighted dquote (p + 1) of
             None \<Rightarrow> highlighted
           | Some e \<Rightarrow>
               let original = substr highlighted p (e - p + 1);
                   replacement = ''<span style='color: green;'>'' @ original @ ''</span>''
               in string_loop (replace highlighted p (length original) replacement)
                    (p + length replacement)))"
  by pat_completeness auto
termination
proof (relation "measure (\<lambda>(highlighted, pos). length highlighted - pos)")
  show "wf (measure (\<lambda>(highlighted, pos). length highlighted - pos))"
    by simp
next
  fix highlighted :: string and pos p e :: nat and original replacement :: string
  assume f: "find_chr highlighted dquote pos = Some p"
    and g: "find_chr highlighted dquote (p + 1) = Some e"
    and o: "original = substr highlighted p (e - p + 1)"
    and r: "replacement = ''<span style='color: green;'>'' @ original @ ''</span>''"
  from find_chr_SomeD(1,2) [OF f] find_chr_SomeD(1,2) [OF g]
  show "((replace highlighted p (length original) replacement, p + length replacement),
          highlighted, pos)
        \<in> measure (\<lambda>(highlighted, pos). length highlighted - pos)"
    by (auto simp: replace_def substr_def o r)
qed

definition string_highlighted :: "string \<Rightarrow> string" where
  "string_highlighted code = string_loop code 0"

subsection \<open>CommentHighlighter\<close>

function comment_loop :: "string \<Rightarrow> nat \<Rightarrow> string" where
  "comment_loop highlighted pos =
     (case find_str highlighted ''//'' pos of
        None \<Rightarrow> highlighted
      | Some p \<Rightarrow>
          let end = (case find_chr highlighted newline p of
                       None \<Rightarrow> length highlighted
                     | Some e \<Rightarrow> e);
              comment = substr highlighted p (end - p);
              replacement = ''<span style='color: gray;'>'' @ comment @ ''</span>''
          in comment_loop (replace highlighted p (length comment) replacement)
               (p + length replacement))"
  by pat_completeness auto
termination
proof (relation "measure (\<lambda>(highlighted, pos). length highlighted - pos)")
  show "wf (measure (\<lambda>(highlighted, pos). length highlighted - pos))"
    by simp
next
  fix highlighted :: string and pos p en :: nat and comment replacement :: string
  assume f: "find_str highlighted ''//'' pos = Some p"
    and e: "en = (case find_chr highlighted newline p of
                       None \<Rightarrow> length highlighted
                     | Some e \<Rightarrow> e)"
    and c: "comment = substr highlighted p (en - p)"
    and r: "replacement = ''<span style='color: gray;'>'' @ comment @ ''</span>''"
  have p: "pos \<le> p" "p + 2 \<le> length highlighted"
    using find_str_SomeD(1,2) [OF f] by simp_all
  have slash: "highlighted ! p = CHR ''/''"
    using find_str_SomeD(4) [OF f] p
    by (simp add: substr_def take_Suc_conv_app_nth numeral_2_eq_2)
  have "(p < en \<or> en = length highlighted) \<and> en \<le> length highlighted"
  proof (cases "find_chr highlighted newline p")
    case None
    with e p show ?thesis by simp
  next
    case (Some e')
    from find_chr_SomeD(1,3) [OF Some] slash have "p < e'"
      by (cases "p = e'") (auto simp: newline_def)
    with e Some find_chr_SomeD(2) [OF Some] show ?thesis by simp
  qed
  with p
  show "((replace highlighted p (length comment) replacement, p + length replacement),
          highlighted, pos)
        \<in> measure (\<lambda>(highlighted, pos). length highlighted - pos)"
    by (auto simp: replace_def substr_def c r)
qed

definition comment_highlighted :: "string \<Rightarrow> string" where
  "comment_highlighted code = comment_loop code 0"

subsection \<open>The virtual method \<open>render\<close>\<close>

fun render :: "CodeRenderer \<Rightarrow> string \<Rightarrow> string" where
  "render PlainCodeRenderer code =
     ''<pre style='font-family: monospace;'>'' @ code @ ''</pre>''"
| "render (SyntaxHighlighter wrapped) code = render wrapped code"
| "render (KeywordHighlighter wrapped) code = render wrapped (keyword_highlighted code)"
| "render (StringHighlighter wrapped) code = render wrapped (string_highlighted code)"
| "render (CommentHighlighter wrapped) code = render wrapped (comment_highlighted code)"

subsection \<open>\<open>convertToHTML\<close> and the chain built by \<open>main\<close>\<close>

text \<open>
  \<open>escapedCode\<close> is built by appending to an accumulator, one input character at a time;
  \<open>convertToHTML\<close> is what the function writes to \<open>std::cout\<close>: the rendering of the
  escaped code and the newline of \<open>std::endl\<close>.
\<close>

definition escape_step :: "string \<Rightarrow> char \<Rightarrow> string" where
  "escape_step escapedCode c =
     (if c = CHR ''<'' then escapedCode @ ''&lt;''
      else if c = CHR ''>'' then escapedCode @ ''&gt;''
      else escapedCode @ [c])"

definition escapedCode :: "string \<Rightarrow> string" where
  "escapedCode code = foldl escape_step [] code"

definition convertToHTML :: "string \<Rightarrow> CodeRenderer \<Rightarrow> string" where
  "convertToHTML code renderer = render renderer (escapedCode code) @ [newline]"

definition main_renderer :: CodeRenderer where
  "main_renderer =
     CommentHighlighter (StringHighlighter (KeywordHighlighter PlainCodeRenderer))"

section \<open>Definitions for stating the claims\<close>

subsection \<open>One iteration of the keyword loop\<close>

text \<open>
  Names for the two parts of one iteration of \<open>keyword_loop\<close>: \<open>whole_word str s p\<close> is
  the condition of its \<open>if\<close> for the candidate at \<open>p\<close> in the working copy \<open>s\<close>, and
  \<open>span kw\<close> is its \<open>replacement\<close>. Lemma \<open>keyword_loop_unfold\<close> is the loop in
  these terms.
\<close>

definition whole_word :: "string \<Rightarrow> string \<Rightarrow> nat \<Rightarrow> bool" where
  "whole_word str s p \<longleftrightarrow>
     (p = 0 \<or> \<not> isalnum (s ! (p - 1))) \<and>
     (p + length str = length s \<or> \<not> isalnum (s ! (p + length str)))"

definition span :: "KeywordColor \<Rightarrow> string" where
  "span kw = ''<span style='color: '' @ color kw @ '';'>'' @ keyword kw @ ''</span>''"

subsection \<open>Overlapping occurrences of a keyword\<close>

text \<open>
  Two occurrences of a keyword can overlap only when a proper suffix of the keyword is
  also a prefix of it. \<open>no_hidden_match str\<close> says that wherever \<open>str\<close> overlaps itself
  at distance \<open>k\<close>, the character of \<open>str\<close> just before the overlap is alphanumeric, so
  the later occurrence is not a whole word. It holds for every keyword of the table
  (\<open>else\<close> overlaps itself at distance 3, after the \<open>s\<close>; no other keyword overlaps
  itself).
\<close>

definition no_hidden_match :: "string \<Rightarrow> bool" where
  "no_hidden_match str =
     (\<forall>k\<in>set [1..<length str]. prefix (drop k str) str \<longrightarrow> isalnum (str ! (k - 1)))"

subsection \<open>The keyword loop that advances by one character (claim C10)\<close>

text \<open>
  The variant of claim C10: \<open>keyword_loop_step1\<close> is \<open>keyword_loop\<close> with the cursor
  advanced by one character, not by the length of the keyword, after a rejected
  candidate; \<open>keyword_highlighted_step1\<close> runs it over the table.
\<close>

function keyword_loop_step1 :: "KeywordColor \<Rightarrow> string \<Rightarrow> nat \<Rightarrow> string" where
  "keyword_loop_step1 kw highlighted pos =
     (if keyword kw = [] then highlighted
      else case find_str highlighted (keyword kw) pos of
        None \<Rightarrow> highlighted
      | Some p \<Rightarrow>
          if (p = 0 \<or> \<not> isalnum (highlighted ! (p - 1))) \<and>
             (p + length (keyword kw) = length highlighted \<or>
              \<not> isalnum (highlighted ! (p + length (keyword kw))))
          then
            let replacement =
                  ''<span style='color: '' @ color kw @ '';'>'' @ keyword kw @ ''</span>''
            in keyword_loop_step1 kw
                 (replace highlighted p (length (keyword kw)) replacement)
                 (p + length replacement)
          else keyword_loop_step1 kw highlighted (p + 1))"
  by pat_completeness auto
termination
proof (relation "measure (\<lambda>(kw, highlighted, pos). length highlighted - pos)")
  show "wf (measure (\<lambda>(kw, highlighted, pos). length highlighted - pos))"
    by simp
next
  fix kw :: KeywordColor and highlighted :: string and pos p :: nat and replacement :: string
  assume ne: "keyword kw \<noteq> []"
    and f: "find_str highlighted (keyword kw) pos = Some p"
    and r: "replacement =
      ''<span style='color: '' @ color kw @ '';'>'' @ keyword kw @ ''</span>''"
  from find_str_SomeD [OF f ne] ne
  show "((kw, replace highlighted p (length (keyword kw)) replacement,
          p + length replacement), kw, highlighted, pos)
        \<in> measure (\<lambda>(kw, highlighted, pos). length highlighted - pos)"
    by (cases "keyword kw") (auto simp: replace_def)
next
  fix kw :: KeywordColor and highlighted :: string and pos p :: nat
  assume ne: "keyword kw \<noteq> []"
    and f: "find_str highlighted (keyword kw) pos = Some p"
  from find_str_SomeD [OF f ne]
  show "((kw, highlighted, p + 1), kw, highlighted, pos)
        \<in> measure (\<lambda>(kw, highlighted, pos). length highlighted - pos)"
    by auto
qed

declare keyword_loop_step1.simps [simp del]

definition keyword_highlighted_step1 :: "string \<Rightarrow> string" where
  "keyword_highlighted_step1 code =
     fold (\<lambda>kw highlighted. keyword_loop_step1 kw highlighted 0) keywordsWithColors code"

subsection \<open>Annotation of whole words, read from the input (claim C2)\<close>

text \<open>
  Claim C2's description of one rule's pass over its input \<open>s\<close>, read from left to
  right: \<open>annotate_whole_words kw s i\<close> is the output for the input from position \<open>i\<close>
  on, in which an occurrence of the keyword at \<open>i\<close> is wrapped in the rule's span when
  the character before it, if any, and the character after it, if any, are not
  alphanumeric in \<open>s\<close>, and every other character is copied.

  \<open>annotate_adjacent\<close> is the same with one more way to start a word: the flag \<open>m\<close>
  says that an annotated occurrence ends exactly at \<open>i\<close>.
\<close>

definition word_start :: "string \<Rightarrow> nat \<Rightarrow> bool" where
  "word_start s p \<longleftrightarrow> p = 0 \<or> \<not> isalnum (s ! (p - 1))"

definition word_end :: "string \<Rightarrow> nat \<Rightarrow> bool" where
  "word_end s e \<longleftrightarrow> e = length s \<or> \<not> isalnum (s ! e)"

definition matches_whole_word :: "KeywordColor \<Rightarrow> string \<Rightarrow> nat \<Rightarrow> bool" where
  "matches_whole_word kw s i \<longleftrightarrow>
     prefix (keyword kw) (drop i s) \<and> word_start s i \<and> word_end s (i + length (keyword kw))"






section \<open>Helper facts about the loops\<close>

text \<open>
  The recursive equations of the loops are unfolded by hand, one iteration at a time.
\<close>

declare keyword_loop.simps [simp del] string_loop.simps [simp del] comment_loop.simps [simp del]

lemma replace_append:
  "replace (pre @ s) (length pre + p) n r = pre @ replace s p n r"
  by (simp add: replace_def add.assoc)

lemma substr_append:
  "substr (pre @ s) (length pre + p) n = substr s p n"
  by (simp add: substr_def)

lemma string_loop_append:
  "string_loop (pre @ s) (length pre + pos) = pre @ string_loop s pos"
proof (induction s pos arbitrary: pre rule: string_loop.induct)
  case (1 highlighted pos)
  show ?case
  proof (cases "find_chr highlighted dquote pos")
    case None
    then show ?thesis
      by (simp add: string_loop.simps [of "pre @ highlighted"] string_loop.simps [of highlighted]
          find_chr_append)
  next
    case p: (Some p)
    show ?thesis
    proof (cases "find_chr highlighted dquote (p + 1)")
      case None
      with p find_chr_append [of pre highlighted dquote "p + 1"] show ?thesis
        by (simp add: string_loop.simps [of "pre @ highlighted"] string_loop.simps [of highlighted]
            find_chr_append add.assoc)
    next
      case e: (Some e)
      define original where "original = substr highlighted p (e - p + 1)"
      define replacement where
        "replacement = ''<span style='color: green;'>'' @ original @ ''</span>''"
      have ih: "string_loop (pre @ replace highlighted p (length original) replacement)
                  (length pre + (p + length replacement)) =
                pre @ string_loop (replace highlighted p (length original) replacement)
                  (p + length replacement)"
        using "1.IH" [OF p e original_def replacement_def] .
      have l: "string_loop highlighted pos =
               string_loop (replace highlighted p (length original) replacement)
                  (p + length replacement)"
        using p e by (simp add: string_loop.simps [of highlighted pos] original_def
            replacement_def Let_def)
      have e': "find_chr (pre @ highlighted) dquote (length pre + p + 1) = Some (length pre + e)"
        using e find_chr_append [of pre highlighted dquote "p + 1"] by (simp add: add.assoc)
      have "string_loop (pre @ highlighted) (length pre + pos) =
            string_loop (replace (pre @ highlighted) (length pre + p) (length original) replacement)
              (length pre + p + length replacement)"
        using p e' substr_append [of pre highlighted p "e - p + 1"]
        by (simp add: string_loop.simps [of "pre @ highlighted"] find_chr_append
            original_def replacement_def Let_def)
      with ih l show ?thesis by (simp add: replace_append add.assoc)
    qed
  qed
qed


lemma comment_loop_append:
  "comment_loop (pre @ s) (length pre + pos) = pre @ comment_loop s pos"
proof (induction s pos arbitrary: pre rule: comment_loop.induct)
  case (1 highlighted pos)
  show ?case
  proof (cases "find_str highlighted ''//'' pos")
    case None
    then show ?thesis
      by (simp add: comment_loop.simps [of "pre @ highlighted"]
          comment_loop.simps [of highlighted] find_str_append)
  next
    case p: (Some p)
    define en where "en = (case find_chr highlighted newline p of
                       None \<Rightarrow> length highlighted | Some e \<Rightarrow> e)"
    define comment where "comment = substr highlighted p (en - p)"
    define replacement where
      "replacement = ''<span style='color: gray;'>'' @ comment @ ''</span>''"
    have ih: "comment_loop (pre @ replace highlighted p (length comment) replacement)
                (length pre + (p + length replacement)) =
              pre @ comment_loop (replace highlighted p (length comment) replacement)
                (p + length replacement)"
      using "1.IH" [OF p en_def comment_def replacement_def] .
    have l: "comment_loop highlighted pos =
             comment_loop (replace highlighted p (length comment) replacement)
               (p + length replacement)"
      using p by (simp add: comment_loop.simps [of highlighted pos] en_def comment_def
          replacement_def Let_def)
    have en': "(case find_chr (pre @ highlighted) newline (length pre + p) of
                  None \<Rightarrow> length (pre @ highlighted) | Some e \<Rightarrow> e) = length pre + en"
      by (simp add: find_chr_append en_def split: option.splits)
    have "comment_loop (pre @ highlighted) (length pre + pos) =
          comment_loop (replace (pre @ highlighted) (length pre + p) (length comment) replacement)
            (length pre + p + length replacement)"
      using p substr_append [of pre highlighted p "en - p"]
      by (simp add: comment_loop.simps [of "pre @ highlighted"] find_str_append en'
          comment_def replacement_def Let_def)
    with ih l show ?thesis by (simp add: replace_append add.assoc)
  qed
qed

lemma find_chr_from_first:
  "c \<notin> set a \<Longrightarrow> find_chr_from (a @ c # b) c i = Some (i + length a)"
  by (induction a arbitrary: i) auto

lemma find_chr_first:
  assumes "c \<notin> set (drop pos a)" "pos \<le> length a"
  shows "find_chr (a @ c # b) c pos = Some (length a)"
  using find_chr_from_first [OF assms(1), of b pos] assms(2)
  by (simp add: find_chr_def)

lemma string_loop_None:
  assumes "dquote \<notin> set (drop pos s)"
  shows "string_loop s pos = s"
proof -
  from assms have "find_chr s dquote pos = None" by (simp add: find_chr_None_iff)
  then show ?thesis by (simp add: string_loop.simps [of s pos])
qed

lemma string_loop_unpaired:
  assumes "dquote \<notin> set (drop pos a)" "pos \<le> length a" "dquote \<notin> set b"
  shows "string_loop (a @ dquote # b) pos = a @ dquote # b"
proof -
  have "find_chr (a @ dquote # b) dquote pos = Some (length a)"
    using assms(1,2) by (rule find_chr_first)
  moreover have "find_chr (a @ dquote # b) dquote (length a + 1) = None"
    using assms(3) by (simp add: find_chr_None_iff)
  ultimately show ?thesis
    by (simp add: string_loop.simps [of "a @ dquote # b" pos])
qed

lemma string_loop_pair:
  assumes "dquote \<notin> set (drop pos a)" "pos \<le> length a" "dquote \<notin> set b"
  shows "string_loop (a @ dquote # b @ dquote # rest) pos =
         a @ ''<span style='color: green;'>'' @ dquote # b @ dquote # ''</span>'' @
         string_loop rest 0"
proof -
  let ?h = "a @ dquote # b @ dquote # rest"
  let ?r = "''<span style='color: green;'>'' @ (dquote # b @ [dquote]) @ ''</span>''"
  have p: "find_chr ?h dquote pos = Some (length a)"
    using assms(1,2) by (rule find_chr_first)
  have "find_chr ((a @ [dquote]) @ b @ dquote # rest) dquote (length (a @ [dquote]) + 0) =
        map_option ((+) (length (a @ [dquote]))) (find_chr (b @ dquote # rest) dquote 0)"
    by (rule find_chr_append)
  moreover have "find_chr (b @ dquote # rest) dquote 0 = Some (length b)"
    using assms(3) by (simp add: find_chr_first)
  ultimately have e: "find_chr ?h dquote (length a + 1) = Some (length a + 1 + length b)"
    by simp
  have o: "substr ?h (length a) (length a + 1 + length b - length a + 1) = dquote # b @ [dquote]"
    by (simp add: substr_def)
  have rp: "replace ?h (length a) (length (dquote # b @ [dquote])) ?r = (a @ ?r) @ rest"
    by (simp add: replace_def)
  have "string_loop ?h pos = string_loop ((a @ ?r) @ rest) (length (a @ ?r) + 0)"
    using p e o rp by (simp add: string_loop.simps [of ?h pos] Let_def)
  also have "\<dots> = (a @ ?r) @ string_loop rest 0"
    by (rule string_loop_append)
  finally show ?thesis by simp
qed

lemma count_list_append: "count_list (xs @ ys) c = count_list xs c + count_list ys c"
  by (induction xs) auto

lemma count_list_0: "c \<notin> set xs \<Longrightarrow> count_list xs c = 0"
  by (induction xs) auto

lemma split_at_substr:
  "p + n \<le> length h \<Longrightarrow> h = take p h @ substr h p n @ drop (p + n) h"
  by (simp add: substr_def add.commute [of p n] flip: drop_drop)

lemma subseq_replace:
  assumes "p + n \<le> length h"
  shows "subseq h (replace h p n (a @ substr h p n @ b))"
proof -
  have "subseq (take p h @ substr h p n @ drop (p + n) h)
          (take p h @ (a @ substr h p n @ b) @ drop (p + n) h)"
    by (intro list_emb_append_mono subseq_order.refl subseq_drop_many subseq_rev_drop_many)
  with split_at_substr [OF assms] show ?thesis
    by (simp add: replace_def)
qed

lemma keyword_loop_unfold:
  "keyword_loop kw h pos =
     (if keyword kw = [] then h
      else case find_str h (keyword kw) pos of
        None \<Rightarrow> h
      | Some p \<Rightarrow>
          if whole_word (keyword kw) h p
          then keyword_loop kw (replace h p (length (keyword kw)) (span kw))
                 (p + length (span kw))
          else keyword_loop kw h (p + length (keyword kw)))"
  by (subst keyword_loop.simps) (simp only: whole_word_def span_def Let_def)

lemma keyword_loop_empty:
  "keyword kw = [] \<Longrightarrow> keyword_loop kw h pos = h"
  by (simp add: keyword_loop_unfold [of kw h pos])

lemma keyword_loop_None:
  "keyword kw \<noteq> [] \<Longrightarrow> find_str h (keyword kw) pos = None \<Longrightarrow> keyword_loop kw h pos = h"
  by (simp add: keyword_loop_unfold [of kw h pos])

lemma keyword_loop_accept:
  assumes "keyword kw \<noteq> []" "find_str h (keyword kw) pos = Some p"
    "whole_word (keyword kw) h p"
  shows "keyword_loop kw h pos =
         keyword_loop kw (replace h p (length (keyword kw)) (span kw)) (p + length (span kw))"
  using assms by (simp add: keyword_loop_unfold [of kw h pos])

lemma keyword_loop_reject:
  assumes "keyword kw \<noteq> []" "find_str h (keyword kw) pos = Some p"
    "\<not> whole_word (keyword kw) h p"
  shows "keyword_loop kw h pos = keyword_loop kw h (p + length (keyword kw))"
  using assms by (simp add: keyword_loop_unfold [of kw h pos])

lemma keyword_loop_cases [case_names empty None accept reject]:
  assumes "\<And>kw h pos. keyword kw = [] \<Longrightarrow> P kw h pos"
    and "\<And>kw h pos. keyword kw \<noteq> [] \<Longrightarrow> find_str h (keyword kw) pos = None \<Longrightarrow> P kw h pos"
    and "\<And>kw h pos p. keyword kw \<noteq> [] \<Longrightarrow> find_str h (keyword kw) pos = Some p \<Longrightarrow>
           whole_word (keyword kw) h p \<Longrightarrow>
           P kw (replace h p (length (keyword kw)) (span kw)) (p + length (span kw)) \<Longrightarrow>
           P kw h pos"
    and "\<And>kw h pos p. keyword kw \<noteq> [] \<Longrightarrow> find_str h (keyword kw) pos = Some p \<Longrightarrow>
           \<not> whole_word (keyword kw) h p \<Longrightarrow>
           P kw h (p + length (keyword kw)) \<Longrightarrow> P kw h pos"
  shows "P kw h pos"
proof (induction kw h pos rule: keyword_loop.induct)
  case (1 kw highlighted pos)
  show ?case
  proof (cases "keyword kw = []")
    case True
    then show ?thesis by (rule assms(1))
  next
    case ne: False
    show ?thesis
    proof (cases "find_str highlighted (keyword kw) pos")
      case None
      with ne show ?thesis by (rule assms(2))
    next
      case (Some p)
      show ?thesis
      proof (cases "whole_word (keyword kw) highlighted p")
        case True
        then have c: "(p = 0 \<or> \<not> isalnum (highlighted ! (p - 1))) \<and>
             (p + length (keyword kw) = length highlighted \<or>
              \<not> isalnum (highlighted ! (p + length (keyword kw))))"
          unfolding whole_word_def .
        have "P kw (replace highlighted p (length (keyword kw)) (span kw))
                (p + length (span kw))"
          using "1.IH"(1) [OF ne Some c span_def [of kw]] .
        with ne Some True show ?thesis by (rule assms(3))
      next
        case False
        then have c: "\<not> ((p = 0 \<or> \<not> isalnum (highlighted ! (p - 1))) \<and>
             (p + length (keyword kw) = length highlighted \<or>
              \<not> isalnum (highlighted ! (p + length (keyword kw)))))"
          unfolding whole_word_def .
        have "P kw highlighted (p + length (keyword kw))"
          using "1.IH"(2) [OF ne Some c] .
        with ne Some False show ?thesis by (rule assms(4))
      qed
    qed
  qed
qed

lemma subseq_keyword_loop: "subseq h (keyword_loop kw h pos)"
proof (induction kw h pos rule: keyword_loop_cases)
  case (empty kw h pos)
  then show ?case by (simp add: keyword_loop_empty)
next
  case (None kw h pos)
  then show ?case by (simp add: keyword_loop_None)
next
  case (accept kw h pos p)
  note b = find_str_SomeD [OF accept(2) accept(1)]
  have "subseq h (replace h p (length (keyword kw))
          ((''<span style='color: '' @ color kw @ '';'>'') @
             substr h p (length (keyword kw)) @ ''</span>''))"
    using b(2) by (rule subseq_replace)
  then have "subseq h (replace h p (length (keyword kw)) (span kw))"
    by (simp add: b(4) span_def)
  also note accept.IH
  also have "keyword_loop kw (replace h p (length (keyword kw)) (span kw))
               (p + length (span kw)) = keyword_loop kw h pos"
    using accept(1-3) by (rule keyword_loop_accept [symmetric])
  finally show ?case .
next
  case (reject kw h pos p)
  then show ?case by (simp add: keyword_loop_reject)
qed

lemma subseq_string_loop: "subseq h (string_loop h pos)"
proof (induction h pos rule: string_loop.induct)
  case (1 highlighted pos)
  show ?case
  proof (cases "find_chr highlighted dquote pos")
    case None
    then show ?thesis by (simp add: string_loop.simps [of highlighted pos])
  next
    case p: (Some p)
    show ?thesis
    proof (cases "find_chr highlighted dquote (p + 1)")
      case None
      with p show ?thesis by (simp add: string_loop.simps [of highlighted pos])
    next
      case e: (Some e)
      define original where "original = substr highlighted p (e - p + 1)"
      define replacement where
        "replacement = ''<span style='color: green;'>'' @ original @ ''</span>''"
      from find_chr_SomeD(1,2) [OF e] have n: "p + (e - p + 1) \<le> length highlighted"
        by simp
      then have len: "length (substr highlighted p (e - p + 1)) = e - p + 1"
        by (simp add: substr_def)
      have "subseq highlighted
              (replace highlighted p (e - p + 1)
                 (''<span style='color: green;'>'' @ substr highlighted p (e - p + 1) @ ''</span>''))"
        using n by (rule subseq_replace)
      then have "subseq highlighted (replace highlighted p (length original) replacement)"
        using len by (simp add: replacement_def original_def)
      also have "subseq \<dots> (string_loop (replace highlighted p (length original) replacement)
                    (p + length replacement))"
        using "1.IH" [OF p e original_def replacement_def] .
      also have "\<dots> = string_loop highlighted pos"
        using p e by (simp add: string_loop.simps [of highlighted pos] original_def
            replacement_def Let_def)
      finally show ?thesis .
    qed
  qed
qed

lemma comment_end_bounds:
  assumes "find_str h ''//'' pos = Some p"
    and "en = (case find_chr h newline p of None \<Rightarrow> length h | Some e \<Rightarrow> e)"
  shows "p \<le> en" "en \<le> length h"
proof -
  have p: "p + 2 \<le> length h" using find_str_SomeD(2) [OF assms(1)] by simp
  show "p \<le> en"
    using assms(2) p find_chr_SomeD(1) [of h newline p]
    by (cases "find_chr h newline p") auto
  show "en \<le> length h"
    using assms(2) find_chr_SomeD(2) [of h newline p]
    by (cases "find_chr h newline p") auto
qed

lemma subseq_comment_loop: "subseq h (comment_loop h pos)"
proof (induction h pos rule: comment_loop.induct)
  case (1 highlighted pos)
  show ?case
  proof (cases "find_str highlighted ''//'' pos")
    case None
    then show ?thesis by (simp add: comment_loop.simps [of highlighted pos])
  next
    case p: (Some p)
    define en where "en = (case find_chr highlighted newline p of
                       None \<Rightarrow> length highlighted | Some e \<Rightarrow> e)"
    define comment where "comment = substr highlighted p (en - p)"
    define replacement where
      "replacement = ''<span style='color: gray;'>'' @ comment @ ''</span>''"
    from comment_end_bounds [OF p en_def] have n: "p + (en - p) \<le> length highlighted"
      by simp
    then have len: "length (substr highlighted p (en - p)) = en - p"
      by (simp add: substr_def)
    have "subseq highlighted
            (replace highlighted p (en - p)
               (''<span style='color: gray;'>'' @ substr highlighted p (en - p) @ ''</span>''))"
      using n by (rule subseq_replace)
    then have "subseq highlighted (replace highlighted p (length comment) replacement)"
      using len by (simp add: replacement_def comment_def)
    also have "subseq \<dots> (comment_loop (replace highlighted p (length comment) replacement)
                  (p + length replacement))"
      using "1.IH" [OF p en_def comment_def replacement_def] .
    also have "\<dots> = comment_loop highlighted pos"
      using p by (simp add: comment_loop.simps [of highlighted pos] en_def comment_def
          replacement_def Let_def)
    finally show ?thesis .
  qed
qed

lemma subseq_fold_keyword_loop:
  "subseq h (fold (\<lambda>kw highlighted. keyword_loop kw highlighted 0) kws h)"
proof (induction kws arbitrary: h)
  case Nil
  show ?case by simp
next
  case (Cons kw kws)
  have "subseq h (keyword_loop kw h 0)" by (rule subseq_keyword_loop)
  also have "subseq \<dots> (fold (\<lambda>kw highlighted. keyword_loop kw highlighted 0) kws
                (keyword_loop kw h 0))"
    by (rule Cons.IH)
  finally show ?case by simp
qed

lemma comment_loop_None:
  "find_str s ''//'' pos = None \<Longrightarrow> comment_loop s pos = s"
  by (simp add: comment_loop.simps [of s pos])

lemma comment_loop_same_find:
  "find_str s ''//'' pos = find_str s ''//'' pos' \<Longrightarrow> comment_loop s pos = comment_loop s pos'"
  by (simp add: comment_loop.simps [of s pos] comment_loop.simps [of s pos'])

lemma comment_loop_newline:
  "comment_loop (newline # t) 0 = newline # comment_loop t 0"
proof -
  have "find_str (newline # t) ''//'' 0 = find_str (newline # t) ''//'' 1"
    by (simp add: find_str_def newline_def)
  then have "comment_loop (newline # t) 0 = comment_loop (newline # t) 1"
    by (rule comment_loop_same_find)
  then have "comment_loop (newline # t) 0 = comment_loop ([newline] @ t) (length [newline] + 0)"
    by simp
  also have "\<dots> = [newline] @ comment_loop t 0"
    by (rule comment_loop_append)
  finally show ?thesis by simp
qed


lemma keywords_no_hidden_match: "\<forall>kw\<in>set keywordsWithColors. no_hidden_match (keyword kw)"
  by code_simp

lemma find_str_later:
  assumes "find_str s str a = Some p" "a \<le> b" "b \<le> p"
  shows "find_str s str b = Some p"
  using assms by (auto simp: find_str_Some_iff)

lemma find_str_None_later:
  assumes "find_str s str a = None" "a \<le> b"
  shows "find_str s str b = None"
  using assms by (auto simp: find_str_None_iff)

lemma overlap_rejected:
  assumes nh: "no_hidden_match str"
    and p: "prefix str (drop p h)"
    and q: "prefix str (drop q h)" "p < q" "q < p + length str"
  shows "\<not> whole_word str h q"
proof -
  define k where "k = q - p"
  have k: "1 \<le> k" "k < length str" "q = p + k"
    using q(2,3) by (simp_all add: k_def)
  from p obtain t where t: "drop p h = str @ t"
    by (auto simp: prefix_def)
  have "drop q h = drop k (drop p h)"
    by (simp add: k(3) add.commute)
  also have "\<dots> = drop k str @ t"
    using k(2) by (simp add: t)
  finally have dq: "drop q h = drop k str @ t" .
  have "prefix (drop k str) (drop q h)" by (simp add: dq)
  then have "prefix (drop k str) str"
    using q(1) by (rule prefix_length_prefix) simp
  with nh k have al: "isalnum (str ! (k - 1))"
    by (auto simp: no_hidden_match_def)
  have "str \<noteq> []" using k(2) by auto
  with p have "p + length str \<le> length h" by (rule prefix_drop_bound)
  then have "h ! (p + (k - 1)) = (drop p h) ! (k - 1)"
    by (simp add: nth_drop)
  also have "\<dots> = str ! (k - 1)"
  proof -
    from k have "k - 1 < length str" by simp
    then show ?thesis by (simp add: t nth_append)
  qed
  finally have "h ! (q - 1) = str ! (k - 1)"
    using k by simp
  with al k show ?thesis
    by (simp add: whole_word_def)
qed

lemma escape_foldl:
  "foldl escape_step acc code =
     acc @ concat (map (\<lambda>c. if c = CHR ''<'' then ''&lt;''
                              else if c = CHR ''>'' then ''&gt;'' else [c]) code)"
  by (induction code arbitrary: acc) (simp_all add: escape_step_def)

section \<open>The claims\<close>

subsection \<open>C1: the order of the transformations in the assembled chain\<close>

text \<open>
  C1. For every input string, rendering through the outermost handle of the chain that
  \<open>main\<close> assembles applies the comment transformation first, then the string-literal
  transformation, then the keyword transformation, and last the wrapping of the base
  renderer.
\<close>

theorem chain_order:
  "render main_renderer code =
     render PlainCodeRenderer
       (keyword_highlighted (string_highlighted (comment_highlighted code)))"
  by (simp add: main_renderer_def)

theorem chain_order_witness:
  "render main_renderer ''int x; // y'' =
     render PlainCodeRenderer
       (keyword_highlighted (string_highlighted (comment_highlighted ''int x; // y'')))
   \<and> render main_renderer ''int x; // y'' =
     ''<pre style='font-family: monospace;'><span style='color: blue;'>int</span> x; <span style='color: gray;'>// y</span></pre>''"
proof -
  have "render PlainCodeRenderer
       (keyword_highlighted (string_highlighted (comment_highlighted ''int x; // y''))) =
     ''<pre style='font-family: monospace;'><span style='color: blue;'>int</span> x; <span style='color: gray;'>// y</span></pre>''"
    by code_simp
  with chain_order [of "''int x; // y''"] show ?thesis by simp
qed

subsection \<open>C2: which occurrences of a keyword are annotated\<close>

lemma whole_word_eq:
  "whole_word str s p \<longleftrightarrow> word_start s p \<and> word_end s (p + length str)"
  by (simp add: whole_word_def word_start_def word_end_def)

text \<open>
  For a keyword of the table no whole-word occurrence starts inside another one, so the
  positions that \<open>annotate_whole_words\<close> passes over after a match hold no match.
\<close>

lemma whole_words_disjoint:
  assumes "no_hidden_match (keyword kw)" "matches_whole_word kw s p"
    "p < q" "q < p + length (keyword kw)"
  shows "\<not> matches_whole_word kw s q"
proof
  assume q: "matches_whole_word kw s q"
  from assms(2) have "prefix (keyword kw) (drop p s)"
    by (simp add: matches_whole_word_def)
  moreover from q have "prefix (keyword kw) (drop q s)" "whole_word (keyword kw) s q"
    by (simp_all add: matches_whole_word_def whole_word_eq)
  ultimately show False
    using overlap_rejected [OF assms(1) _ _ assms(3,4)] by blast
qed













subsection \<open>C3: the span of a line comment\<close>

text \<open>
  C3. For an input whose first comment marker \<open>//\<close> is at \<open>p\<close>, with \<open>en\<close> the position
  of the next newline from \<open>p\<close> on (the length of the input when there is none), the
  comment highlighter puts exactly the text from the marker up to \<open>en\<close>, which starts
  with the marker and holds no newline, in one gray span. The text before the marker is
  unchanged. The rest, from the newline on, is scanned on its own: the newline stays as
  it is, and when the rest has no marker it is unchanged.
\<close>

theorem comment_span:
  assumes "find_str code ''//'' 0 = Some p"
    and "en = (case find_chr code newline p of None \<Rightarrow> length code | Some e \<Rightarrow> e)"
  shows "comment_highlighted code =
           take p code @ ''<span style='color: gray;'>'' @ substr code p (en - p) @ ''</span>'' @
           comment_highlighted (drop en code)
         \<and> prefix ''//'' (substr code p (en - p))
         \<and> newline \<notin> set (substr code p (en - p))
         \<and> (en < length code \<longrightarrow>
              code ! en = newline \<and>
              comment_highlighted (drop en code) =
                newline # comment_highlighted (drop (Suc en) code))
         \<and> (find_str (drop en code) ''//'' 0 = None \<longrightarrow>
              comment_highlighted (drop en code) = drop en code)"
proof -
  define comment where "comment = substr code p (en - p)"
  define r where "r = ''<span style='color: gray;'>'' @ comment @ ''</span>''"
  note b = comment_end_bounds [OF assms]
  have p: "p + 2 \<le> length code" "substr code p 2 = ''//''"
    using find_str_SomeD(2,4) [OF assms(1)] by (simp_all add: numeral_2_eq_2)
  have slash: "code ! p = CHR ''/''" "code ! Suc p = CHR ''/''"
    using p by (simp_all add: substr_def take_Suc_conv_app_nth numeral_2_eq_2)
  have len: "length comment = en - p"
    using b by (simp add: comment_def substr_def)
  have rp: "replace code p (en - p) r = (take p code @ r) @ drop en code"
    using b by (simp add: replace_def)
  have pl: "p + length r = length (take p code @ r) + 0"
    using p(1) by simp
  have "comment_loop code 0 = comment_loop (replace code p (length comment) r) (p + length r)"
    using assms by (simp add: comment_loop.simps [of code 0] Let_def comment_def r_def)
  also have "\<dots> = comment_loop ((take p code @ r) @ drop en code)
                     (length (take p code @ r) + 0)"
    by (simp only: len rp pl)
  also have "\<dots> = (take p code @ r) @ comment_loop (drop en code) 0"
    by (rule comment_loop_append)
  finally have 1: "comment_highlighted code =
           take p code @ ''<span style='color: gray;'>'' @ substr code p (en - p) @ ''</span>'' @
           comment_highlighted (drop en code)"
    by (simp add: comment_highlighted_def r_def comment_def)
  have nl: "find_chr code newline p = Some en" if "en < length code"
    using assms(2) that by (cases "find_chr code newline p") simp_all
  have "p + 2 \<le> en"
  proof (cases "en < length code")
    case True
    from find_chr_SomeD(1,3) [OF nl [OF True]] slash have "p \<le> en" "en \<noteq> p" "en \<noteq> Suc p"
      by (auto simp: newline_def)
    then show ?thesis by simp
  next
    case False
    with b p show ?thesis by simp
  qed
  then have "take 2 (substr code p (en - p)) = ''//''"
    using p(2) by (simp add: substr_def min_absorb2)
  then have 2: "prefix ''//'' (substr code p (en - p))"
    using take_is_prefix [of 2 "substr code p (en - p)"] by simp
  have 3: "newline \<notin> set (substr code p (en - p))"
  proof (cases "find_chr code newline p")
    case None
    then have "newline \<notin> set (drop p code)" by (simp add: find_chr_None_iff)
    then show ?thesis by (auto simp: substr_def dest: in_set_takeD)
  next
    case (Some e)
    with assms(2) find_chr_SomeD(4) [OF Some] show ?thesis
      by (simp add: substr_def)
  qed
  have 4: "code ! en = newline \<and>
           comment_highlighted (drop en code) =
             newline # comment_highlighted (drop (Suc en) code)" if "en < length code"
  proof -
    have e: "code ! en = newline"
      using find_chr_SomeD(3) [OF nl [OF that]] .
    with that have "drop en code = newline # drop (Suc en) code"
      by (simp add: Cons_nth_drop_Suc [symmetric])
    with e show ?thesis
      by (simp add: comment_highlighted_def comment_loop_newline)
  qed
  have 5: "comment_highlighted (drop en code) = drop en code"
    if "find_str (drop en code) ''//'' 0 = None"
    using that by (simp add: comment_highlighted_def comment_loop_None)
  show ?thesis
  proof (intro conjI impI)
    show "comment_highlighted code =
           take p code @ ''<span style='color: gray;'>'' @ substr code p (en - p) @ ''</span>'' @
           comment_highlighted (drop en code)" by (fact 1)
    show "prefix ''//'' (substr code p (en - p))" by (fact 2)
    show "newline \<notin> set (substr code p (en - p))" by (fact 3)
    show "code ! en = newline" if "en < length code" using 4 [OF that] by (rule conjunct1)
    show "comment_highlighted (drop en code) =
                newline # comment_highlighted (drop (Suc en) code)" if "en < length code"
      using 4 [OF that] by (rule conjunct2)
    show "comment_highlighted (drop en code) = drop en code"
      if "find_str (drop en code) ''//'' 0 = None" using that by (rule 5)
  qed
qed


theorem comment_span_witness:
  "comment_highlighted (''a // b'' @ [newline] @ ''c'') =
     ''a <span style='color: gray;'>// b</span>'' @ [newline] @ ''c''"
proof -
  let ?code = "''a // b'' @ [newline] @ ''c''"
  have f: "find_str ?code ''//'' 0 = Some 2" by code_simp
  have e: "(6::nat) = (case find_chr ?code newline 2 of None \<Rightarrow> length ?code | Some e \<Rightarrow> e)"
    by code_simp
  have n: "find_str (drop 6 ?code) ''//'' 0 = None" by code_simp
  have t: "take 2 ?code = ''a ''" "substr ?code 2 (6 - 2) = ''// b''"
    "drop 6 ?code = [newline] @ ''c''"
    by (simp_all add: substr_def)
  from comment_span [OF f e] n have "comment_highlighted ?code =
           take 2 ?code @ ''<span style='color: gray;'>'' @ substr ?code 2 (6 - 2) @ ''</span>'' @
           drop 6 ?code"
    by presburger
  then show ?thesis unfolding t by simp
qed

subsection \<open>C4: a backslash-escaped quote ends the literal\<close>



subsection \<open>C5: an unpaired quote\<close>

text \<open>
  C5. When a double quote has no later double quote to pair with (the quotes before it
  pair up, none follows it), the string highlighter stops there: the text before is
  highlighted as it is on its own, and the unpaired quote and all text after it are
  unchanged. The function is total, so there is no failure.
\<close>

theorem unterminated_literal:
  assumes "even (count_list pre dquote)" "dquote \<notin> set suf"
  shows "string_highlighted (pre @ dquote # suf) = string_highlighted pre @ dquote # suf"
  using assms(1)
proof (induction pre rule: length_induct)
  case (1 pre)
  show ?case
  proof (cases "dquote \<in> set pre")
    case False
    then have "string_loop (pre @ dquote # suf) 0 = pre @ dquote # suf"
      using assms(2) by (simp add: string_loop_unpaired)
    moreover from False have "string_loop pre 0 = pre"
      by (simp add: string_loop_None)
    ultimately show ?thesis by (simp add: string_highlighted_def)
  next
    case True
    then obtain a r where pre: "pre = a @ dquote # r" and a: "dquote \<notin> set a"
      by (auto dest: split_list_first)
    from "1.prems" pre a have "odd (count_list r dquote)"
      by (simp add: count_list_append count_list_0)
    then have "dquote \<in> set r"
      by (metis count_list_0 even_zero)
    then obtain b c where r: "r = b @ dquote # c" and b: "dquote \<notin> set b"
      by (auto dest: split_list_first)
    from \<open>odd (count_list r dquote)\<close> r b have c: "even (count_list c dquote)"
      by (simp add: count_list_append count_list_0)
    have "length c < length pre" by (simp add: pre r)
    with "1.IH" c
    have ih: "string_highlighted (c @ dquote # suf) = string_highlighted c @ dquote # suf"
      by blast
    have "string_loop (a @ dquote # b @ dquote # (c @ dquote # suf)) 0 =
          a @ ''<span style='color: green;'>'' @ dquote # b @ dquote # ''</span>'' @
          string_loop (c @ dquote # suf) 0"
      using a b by (simp add: string_loop_pair)
    moreover have "string_loop (a @ dquote # b @ dquote # c) 0 =
          a @ ''<span style='color: green;'>'' @ dquote # b @ dquote # ''</span>'' @
          string_loop c 0"
      using a b by (simp add: string_loop_pair)
    ultimately show ?thesis
      using ih by (simp add: string_highlighted_def pre r)
  qed
qed

theorem unterminated_literal_witness:
  "string_highlighted (''a'' @ [dquote] @ ''b'' @ [dquote] @ ''c'' @ dquote # ''d'') =
     ''a<span style='color: green;'>'' @ [dquote] @ ''b'' @ [dquote] @ ''</span>c'' @
     dquote # ''d''"
proof -
  have e: "even (count_list (''a'' @ [dquote] @ ''b'' @ [dquote] @ ''c'') dquote)"
    by (simp add: dquote_def)
  have d: "dquote \<notin> set ''d''" by (simp add: dquote_def)
  have "string_highlighted (''a'' @ [dquote] @ ''b'' @ [dquote] @ ''c'') =
        ''a<span style='color: green;'>'' @ [dquote] @ ''b'' @ [dquote] @ ''</span>c''"
    by code_simp
  with unterminated_literal [OF e d] show ?thesis by simp
qed

subsection \<open>C6: the end-to-end scenario\<close>

text \<open>
  C6. The input \<open>int main() { return 0; // done\<close>, a newline, \<open> }\<close> through the chain
  of \<open>main\<close>: \<open>int\<close> and \<open>return\<close> are in keyword spans, \<open>// done\<close> is in the comment
  span, there is no string-literal (green) span, and the whole is wrapped once in the
  preformatted block.
\<close>

theorem end_to_end_scenario:
  "render main_renderer (''int main() { return 0; // done'' @ [newline] @ '' }'') =
     ''<pre style='font-family: monospace;'>'' @
     ''<span style='color: blue;'>int</span> main() { '' @
     ''<span style='color: darkblue;'>return</span> 0; '' @
     ''<span style='color: gray;'>// done</span>'' @ [newline] @ '' }'' @
     ''</pre>''"
  by code_simp

theorem end_to_end_scenario_witness:
  "length (render main_renderer (''int main() { return 0; // done'' @ [newline] @ '' }'')) = 182"
  using end_to_end_scenario by simp

subsection \<open>C7: the empty input\<close>

text \<open>
  C7, as stated, says that every stage, the base renderer included, returns an empty or
  unchanged string on the empty input. The base renderer does not: it returns the
  empty preformatted block.
\<close>

theorem empty_input_counterexample:
  "\<not> (render PlainCodeRenderer [] = [])"
  by simp

text \<open>
  C7, amended. On the empty input each of the three transformations leaves the text
  empty, and the base renderer, hence the whole chain, returns the preformatted block
  with nothing inside.
\<close>

theorem empty_input:
  "comment_highlighted [] = [] \<and> string_highlighted [] = [] \<and> keyword_highlighted [] = []
   \<and> render PlainCodeRenderer [] = ''<pre style='font-family: monospace;'></pre>''
   \<and> render main_renderer [] = ''<pre style='font-family: monospace;'></pre>''"
  by code_simp

theorem empty_input_witness:
  "length (render main_renderer []) = 43 \<and> comment_highlighted [] = []"
  using empty_input by simp

subsection \<open>C8: the escaper of \<open>convertToHTML\<close>\<close>

text \<open>
  C8. The escaper replaces each \<open><\<close> by \<open>&lt;\<close> and each \<open>>\<close> by \<open>&gt;\<close> and keeps
  every other character, \<open>&\<close> included; \<open>convertToHTML\<close> hands the escaped string to
  the renderer.
\<close>

theorem escaper:
  "escapedCode code =
     concat (map (\<lambda>c. if c = CHR ''<'' then ''&lt;''
                      else if c = CHR ''>'' then ''&gt;'' else [c]) code)
   \<and> convertToHTML code renderer = render renderer (escapedCode code) @ [newline]"
  by (simp add: escapedCode_def convertToHTML_def escape_foldl)

theorem escaper_witness:
  "escapedCode ''a<b>&c'' = ''a&lt;b&gt;&c''
   \<and> convertToHTML ''a<b>&c'' PlainCodeRenderer =
       ''<pre style='font-family: monospace;'>a&lt;b&gt;&c</pre>'' @ [newline]"
  using escaper [of "''a<b>&c''" PlainCodeRenderer] by simp

subsection \<open>C9: the transformations only insert markup\<close>

text \<open>
  C9. The text that each of the three highlighters hands to the renderer it wraps has
  the input as a subsequence (the input's characters, all of them, in their order) and
  is at least as long as the input: the loops only insert.
\<close>

theorem only_insertions:
  "subseq code (keyword_highlighted code) \<and>
   length code \<le> length (keyword_highlighted code) \<and>
   subseq code (string_highlighted code) \<and>
   length code \<le> length (string_highlighted code) \<and>
   subseq code (comment_highlighted code) \<and>
   length code \<le> length (comment_highlighted code)"
proof -
  have k: "subseq code (keyword_highlighted code)"
    unfolding keyword_highlighted_def by (rule subseq_fold_keyword_loop)
  have s: "subseq code (string_highlighted code)"
    unfolding string_highlighted_def by (rule subseq_string_loop)
  have c: "subseq code (comment_highlighted code)"
    unfolding comment_highlighted_def by (rule subseq_comment_loop)
  from k s c list_emb_length [OF k] list_emb_length [OF s] list_emb_length [OF c]
  show ?thesis by simp
qed

theorem only_insertions_witness:
  "subseq ''int x'' (keyword_highlighted ''int x'') \<and>
   keyword_highlighted ''int x'' = ''<span style='color: blue;'>int</span> x''"
proof -
  have "keyword_highlighted ''int x'' = ''<span style='color: blue;'>int</span> x''"
    by code_simp
  with only_insertions [of "''int x''"] show ?thesis by blast
qed

subsection \<open>C10: skipping a rejected candidate loses no match\<close>

lemma keyword_loop_step1_unfold:
  "keyword_loop_step1 kw h pos =
     (if keyword kw = [] then h
      else case find_str h (keyword kw) pos of
        None \<Rightarrow> h
      | Some p \<Rightarrow>
          if whole_word (keyword kw) h p
          then keyword_loop_step1 kw (replace h p (length (keyword kw)) (span kw))
                 (p + length (span kw))
          else keyword_loop_step1 kw h (p + 1))"
  by (subst keyword_loop_step1.simps) (simp only: whole_word_def span_def Let_def)

lemma step1_skip:
  assumes "a \<le> b"
    and "\<forall>q. a \<le> q \<and> q < b \<and> prefix (keyword kw) (drop q h) \<longrightarrow>
             \<not> whole_word (keyword kw) h q"
  shows "keyword_loop_step1 kw h a = keyword_loop_step1 kw h b"
  using assms
proof (induction "b - a" arbitrary: a rule: less_induct)
  case less
  show ?case
  proof (cases "keyword kw = []")
    case True
    then show ?thesis
      by (simp add: keyword_loop_step1_unfold [of kw h a] keyword_loop_step1_unfold [of kw h b])
  next
    case ne: False
    show ?thesis
    proof (cases "find_str h (keyword kw) a")
      case None
      with find_str_None_later [OF None less.prems(1)] ne show ?thesis
        by (simp add: keyword_loop_step1_unfold [of kw h a] keyword_loop_step1_unfold [of kw h b])
    next
      case (Some p)
      show ?thesis
      proof (cases "b \<le> p")
        case True
        from find_str_later [OF Some less.prems(1) True] Some ne show ?thesis
          by (simp add: keyword_loop_step1_unfold [of kw h a]
              keyword_loop_step1_unfold [of kw h b])
      next
        case False
        from Some have occ: "a \<le> p" "prefix (keyword kw) (drop p h)"
          by (simp_all add: find_str_Some_iff)
        with False less.prems(2) have rej: "\<not> whole_word (keyword kw) h p"
          by auto
        have "keyword_loop_step1 kw h a = keyword_loop_step1 kw h (p + 1)"
          using ne Some rej by (simp add: keyword_loop_step1_unfold [of kw h a])
        also have "\<dots> = keyword_loop_step1 kw h b"
        proof (rule less.hyps)
          show "b - (p + 1) < b - a" using occ(1) False by simp
          show "p + 1 \<le> b" using False by simp
          show "\<forall>q. p + 1 \<le> q \<and> q < b \<and> prefix (keyword kw) (drop q h) \<longrightarrow>
             \<not> whole_word (keyword kw) h q"
            using less.prems(2) occ(1) by auto
        qed
        finally show ?thesis .
      qed
    qed
  qed
qed

lemma keyword_loop_eq_step1:
  assumes "no_hidden_match (keyword kw)"
  shows "keyword_loop kw h pos = keyword_loop_step1 kw h pos"
  using assms
proof (induction kw h pos rule: keyword_loop_cases)
  case (empty kw h pos)
  then show ?case
    by (simp add: keyword_loop_empty keyword_loop_step1_unfold [of kw h pos])
next
  case (None kw h pos)
  then show ?case
    by (simp add: keyword_loop_None keyword_loop_step1_unfold [of kw h pos])
next
  case (accept kw h pos p)
  then show ?case
    by (simp add: keyword_loop_accept keyword_loop_step1_unfold [of kw h pos])
next
  case (reject kw h pos p)
  note occ = find_str_Some_iff [THEN iffD1, OF reject(2)]
  have "keyword_loop kw h pos = keyword_loop kw h (p + length (keyword kw))"
    using reject(1-3) by (rule keyword_loop_reject)
  also have "\<dots> = keyword_loop_step1 kw h (p + length (keyword kw))"
    using reject.IH reject.prems .
  also have "\<dots> = keyword_loop_step1 kw h (p + 1)"
  proof (rule step1_skip [symmetric])
    show "p + 1 \<le> p + length (keyword kw)"
      using reject(1) by (cases "keyword kw") simp_all
    show "\<forall>q. p + 1 \<le> q \<and> q < p + length (keyword kw) \<and> prefix (keyword kw) (drop q h) \<longrightarrow>
             \<not> whole_word (keyword kw) h q"
      using overlap_rejected [OF reject.prems, of p h] occ by auto
  qed
  also have "\<dots> = keyword_loop_step1 kw h pos"
    using reject(1-3) by (simp add: keyword_loop_step1_unfold [of kw h pos])
  finally show ?case .
qed

text \<open>
  C10. For every rule of the table no occurrence that starts inside a rejected candidate
  can be a whole word (\<open>no_hidden_match\<close>), the loop of the source and the variant that
  advances by one character return the same text from every working copy and cursor,
  and so do the two highlighters on every input.
\<close>

theorem advance_past_rejected:
  "(\<forall>kw\<in>set keywordsWithColors.
      no_hidden_match (keyword kw) \<and>
      (\<forall>h pos. keyword_loop kw h pos = keyword_loop_step1 kw h pos)) \<and>
   keyword_highlighted code = keyword_highlighted_step1 code"
proof -
  have 1: "keyword_loop kw h pos = keyword_loop_step1 kw h pos"
    if "kw \<in> set keywordsWithColors" for kw h pos
    using keywords_no_hidden_match that by (auto intro: keyword_loop_eq_step1)
  have "fold (\<lambda>kw highlighted. keyword_loop kw highlighted 0) kws c =
        fold (\<lambda>kw highlighted. keyword_loop_step1 kw highlighted 0) kws c"
    if "set kws \<subseteq> set keywordsWithColors" for kws c
    using that by (induction kws arbitrary: c) (simp_all add: 1)
  then have "keyword_highlighted code = keyword_highlighted_step1 code"
    by (simp add: keyword_highlighted_def keyword_highlighted_step1_def)
  with 1 keywords_no_hidden_match show ?thesis by blast
qed

theorem advance_past_rejected_witness:
  "keyword_highlighted ''elselse else'' = keyword_highlighted_step1 ''elselse else'' \<and>
   keyword_highlighted_step1 ''elselse else'' =
     ''elselse <span style='color: darkorange;'>else</span>''"
proof -
  have "keyword_highlighted_step1 ''elselse else'' =
     ''elselse <span style='color: darkorange;'>else</span>''"
    by code_simp
  with advance_past_rejected [of "''elselse else''"] show ?thesis by blast
qed

end
